theory Spec2Isabelle
  imports Main
begin

text \<open>
  A model of \<open>src/modules/candidate/candidate.utils.ts\<close>: the function
  \<open>cleanExtractedText\<close>, which rebuilds readable text from what a PDF extractor returns,
  and \<open>extractTextFromPDFs\<close>, which runs a batch of documents through the extractor and
  the cleaner.  The regular expressions of the source are kept as data and run by a
  backtracking matcher; the extractor is a parameter.
\<close>

section \<open>JavaScript strings\<close>

text \<open>
  A JavaScript string is a sequence of UTF-16 code units.  A code unit is modelled by its
  number; every character that the source mentions lies in the Basic Multilingual Plane
  and is one code unit.  ASCII text is written with \<open>js\<close>.
\<close>

type_synonym jschar = nat
type_synonym jsstring = "jschar list"

definition js :: "string \<Rightarrow> jsstring" where
  "js = map of_char"

definition LF :: jschar where "LF = 10"
definition CR :: jschar where "CR = 13"
definition TAB :: jschar where "TAB = 9"
definition SP :: jschar where "SP = 32"

text \<open>The character classes of the regular expressions in \<open>candidate.utils.ts\<close>.\<close>

definition cc_space :: "jschar \<Rightarrow> bool" where
  \<comment> \<open>\<open>\s\<close>: WhiteSpace and LineTerminator of ECMAScript; also what \<open>trim()\<close> strips\<close>
  "cc_space c \<longleftrightarrow>
     (9 \<le> c \<and> c \<le> 13) \<or> c = 32 \<or> c = 160 \<or> c = 5760 \<or> (8192 \<le> c \<and> c \<le> 8202) \<or>
     c = 8232 \<or> c = 8233 \<or> c = 8239 \<or> c = 8287 \<or> c = 12288 \<or> c = 65279"

definition cc_nonspace :: "jschar \<Rightarrow> bool" where
  \<comment> \<open>\<open>\S\<close>\<close>
  "cc_nonspace c \<longleftrightarrow> \<not> cc_space c"

definition cc_digit :: "jschar \<Rightarrow> bool" where
  \<comment> \<open>\<open>\d\<close>\<close>
  "cc_digit c \<longleftrightarrow> 48 \<le> c \<and> c \<le> 57"

definition cc_upper :: "jschar \<Rightarrow> bool" where
  \<comment> \<open>\<open>[A-Z]\<close>\<close>
  "cc_upper c \<longleftrightarrow> 65 \<le> c \<and> c \<le> 90"

definition cc_lower :: "jschar \<Rightarrow> bool" where
  \<comment> \<open>\<open>[a-z]\<close>\<close>
  "cc_lower c \<longleftrightarrow> 97 \<le> c \<and> c \<le> 122"

definition cc_word :: "jschar \<Rightarrow> bool" where
  \<comment> \<open>\<open>\w\<close>: \<open>[A-Za-z0-9_]\<close>\<close>
  "cc_word c \<longleftrightarrow> cc_upper c \<or> cc_lower c \<or> cc_digit c \<or> c = 95"

definition cc_punct :: "jschar \<Rightarrow> bool" where
  \<comment> \<open>\<open>[.,;:!?]\<close>\<close>
  "cc_punct c \<longleftrightarrow> c = 46 \<or> c = 44 \<or> c = 59 \<or> c = 58 \<or> c = 33 \<or> c = 63"

definition cc_control :: "jschar \<Rightarrow> bool" where
  \<comment> \<open>\<open>[\x00-\x08\x0B-\x0C\x0E-\x1F\x7F]\<close>\<close>
  "cc_control c \<longleftrightarrow> c \<le> 8 \<or> c = 11 \<or> c = 12 \<or> (14 \<le> c \<and> c \<le> 31) \<or> c = 127"

definition BULLET :: jschar where
  \<comment> \<open>U+25CF BLACK CIRCLE, the standard bullet\<close>
  "BULLET = 9679"

definition cc_bullet_variant :: "jschar \<Rightarrow> bool" where
  \<comment> \<open>line 106: U+2022, U+25AA, U+25AB, U+25E6, U+2023, U+2043\<close>
  "cc_bullet_variant c \<longleftrightarrow>
     c = 8226 \<or> c = 9642 \<or> c = 9643 \<or> c = 9702 \<or> c = 8227 \<or> c = 8259"

definition cc_bullet :: "jschar \<Rightarrow> bool" where
  \<comment> \<open>line 36: U+25CF and the six variants\<close>
  "cc_bullet c \<longleftrightarrow> c = BULLET \<or> cc_bullet_variant c"

definition cc_caps :: "jschar \<Rightarrow> bool" where
  \<comment> \<open>\<open>[A-Z\s&]\<close>\<close>
  "cc_caps c \<longleftrightarrow> cc_upper c \<or> cc_space c \<or> c = 38"

definition cc_dash :: "jschar \<Rightarrow> bool" where
  \<comment> \<open>line 47: U+2013 EN DASH or hyphen-minus\<close>
  "cc_dash c \<longleftrightarrow> c = 8211 \<or> c = 45"

definition cc_company :: "jschar \<Rightarrow> bool" where
  \<comment> \<open>\<open>[A-Za-z\s&]\<close>\<close>
  "cc_company c \<longleftrightarrow> cc_upper c \<or> cc_lower c \<or> cc_space c \<or> c = 38"

definition cc_not_rparen :: "jschar \<Rightarrow> bool" where
  \<comment> \<open>\<open>[^)]\<close>\<close>
  "cc_not_rparen c \<longleftrightarrow> c \<noteq> 41"

definition cc_is :: "jschar \<Rightarrow> jschar \<Rightarrow> bool" where
  \<comment> \<open>a literal character\<close>
  "cc_is a c \<longleftrightarrow> c = a"

section \<open>Regular expressions\<close>

text \<open>
  Every regular expression of the source is a sequence of character classes, each with a
  greedy quantifier, optionally anchored.  An item \<open>Item c l h\<close> is the class \<open>c\<close> repeated
  at least \<open>l\<close> and at most \<open>h\<close> times (\<open>None\<close>: unbounded).  \<open>match_items\<close> is the
  backtracking matcher at a fixed position: an item first takes as many characters as it
  can and gives them back one at a time while the rest of the pattern fails.  It returns
  the text matched by each item, from which the capture groups are read.
\<close>

datatype item = Item "jschar \<Rightarrow> bool" nat "nat option"

definition one :: "(jschar \<Rightarrow> bool) \<Rightarrow> item" where "one c = Item c 1 (Some 1)"
definition lit :: "jschar \<Rightarrow> item" where "lit a = Item (cc_is a) 1 (Some 1)"
definition star :: "(jschar \<Rightarrow> bool) \<Rightarrow> item" where "star c = Item c 0 None"
definition plus :: "(jschar \<Rightarrow> bool) \<Rightarrow> item" where "plus c = Item c 1 None"
definition times :: "(jschar \<Rightarrow> bool) \<Rightarrow> nat \<Rightarrow> nat \<Rightarrow> item" where
  "times c l h = Item c l (Some h)"

fun may_take :: "nat \<Rightarrow> nat option \<Rightarrow> bool" where
  "may_take k None = True"
| "may_take k (Some h) = (k < h)"

fun push :: "jschar \<Rightarrow> jsstring list \<Rightarrow> jsstring list" where
  "push x [] = [[x]]"
| "push x (p # ps) = (x # p) # ps"

fun match_items :: "bool \<Rightarrow> item list \<Rightarrow> nat \<Rightarrow> jsstring \<Rightarrow> jsstring list option" where
  "match_items e [] k s = (if e \<and> s \<noteq> [] then None else Some [])"
| "match_items e (Item c l h # its) k [] =
     (if l \<le> k then map_option (Cons []) (match_items e its 0 []) else None)"
| "match_items e (Item c l h # its) k (x # xs) =
     (if c x \<and> may_take k h
      then (case match_items e (Item c l h # its) (k + 1) xs of
              Some ps \<Rightarrow> Some (push x ps)
            | None \<Rightarrow>
                if l \<le> k then map_option (Cons []) (match_items e its 0 (x # xs)) else None)
      else if l \<le> k then map_option (Cons []) (match_items e its 0 (x # xs)) else None)"

text \<open>A pattern is a list of alternatives, tried in order (\<open>a|b\<close>).\<close>

fun match_at :: "bool \<Rightarrow> item list list \<Rightarrow> jsstring \<Rightarrow> jsstring list option" where
  "match_at e [] s = None"
| "match_at e (a # as) s =
     (case match_items e a 0 s of Some ps \<Rightarrow> Some ps | None \<Rightarrow> match_at e as s)"

text \<open>
  \<open>RegExp.prototype.test\<close> for a pattern without \<open>^\<close>: the leftmost position where the
  pattern matches.  The flag \<open>e\<close> is the anchor \<open>$\<close>.
\<close>

fun search :: "bool \<Rightarrow> item list list \<Rightarrow> jsstring \<Rightarrow> bool" where
  "search e alts [] = (match_at e alts [] \<noteq> None)"
| "search e alts (x # xs) =
     (case match_at e alts (x # xs) of Some ps \<Rightarrow> True | None \<Rightarrow> search e alts xs)"

text \<open>
  \<open>String.prototype.replace\<close> with a global pattern that has no anchor: scan from the
  left; at a match, emit the replacement and go on after the match (after one more
  character when the match is empty); elsewhere copy the character.
\<close>

fun replace_all ::
  "item list list \<Rightarrow> (jsstring list \<Rightarrow> jsstring) \<Rightarrow> jsstring \<Rightarrow> jsstring" where
  "replace_all alts f [] = (case match_at False alts [] of Some ps \<Rightarrow> f ps | None \<Rightarrow> [])"
| "replace_all alts f (x # xs) =
     (case match_at False alts (x # xs) of
        None \<Rightarrow> x # replace_all alts f xs
      | Some ps \<Rightarrow>
          (if concat ps = [] then f ps @ x # replace_all alts f xs
           else f ps @ replace_all alts f (drop (length (concat ps) - 1) xs)))"

section \<open>String operations\<close>

fun split_on :: "jschar \<Rightarrow> jsstring \<Rightarrow> jsstring list" where
  \<comment> \<open>\<open>s.split(d)\<close> for a one-character separator\<close>
  "split_on d [] = [[]]"
| "split_on d (x # xs) = (if x = d then [] # split_on d xs else push x (split_on d xs))"

definition trim :: "jsstring \<Rightarrow> jsstring" where
  \<comment> \<open>\<open>s.trim()\<close>\<close>
  "trim s = rev (dropWhile cc_space (rev (dropWhile cc_space s)))"

fun join_with :: "jsstring \<Rightarrow> jsstring list \<Rightarrow> jsstring" where
  \<comment> \<open>\<open>xs.join(sep)\<close>\<close>
  "join_with sep [] = []"
| "join_with sep [l] = l"
| "join_with sep (l # ls) = l @ sep @ join_with sep ls"

definition endsWith :: "jsstring \<Rightarrow> jschar \<Rightarrow> bool" where
  \<comment> \<open>\<open>s.endsWith(c)\<close> for a one-character argument\<close>
  "endsWith s c \<longleftrightarrow> s \<noteq> [] \<and> last s = c"

section \<open>cleanExtractedText\<close>

subsection \<open>1. Initial artifact cleaning and normalization (lines 9-19)\<close>

fun to_empty :: "jsstring list \<Rightarrow> jsstring" where
  "to_empty ps = []"

fun to_newline :: "jsstring list \<Rightarrow> jsstring" where
  "to_newline ps = [LF]"

fun to_space :: "jsstring list \<Rightarrow> jsstring" where
  "to_space ps = [SP]"

definition rx_page_separator :: "item list list" where
  \<comment> \<open>\<open>/--\s*\d+\s+of\s+\d+\s*--/g\<close>\<close>
  "rx_page_separator =
     [[lit 45, lit 45, star cc_space, plus cc_digit, plus cc_space, lit 111, lit 102,
       plus cc_space, plus cc_digit, star cc_space, lit 45, lit 45]]"

definition rx_control :: "item list list" where
  \<comment> \<open>\<open>/[\x00-\x08\x0B-\x0C\x0E-\x1F\x7F]/g\<close>\<close>
  "rx_control = [[one cc_control]]"

definition rx_line_break :: "item list list" where
  \<comment> \<open>\<open>/\r\n|\r/g\<close>\<close>
  "rx_line_break = [[lit CR, lit LF], [lit CR]]"

definition rx_tab :: "item list list" where
  \<comment> \<open>\<open>/\t/g\<close>\<close>
  "rx_tab = [[lit TAB]]"

definition rx_spaces :: "item list list" where
  \<comment> \<open>\<open>/[ ]{2,}/g\<close>\<close>
  "rx_spaces = [[Item (cc_is SP) 2 None]]"

definition normalize :: "jsstring \<Rightarrow> jsstring" where
  "normalize text =
     replace_all rx_spaces to_space
       (replace_all rx_tab to_space
         (replace_all rx_line_break to_newline
           (replace_all rx_control to_empty
             (replace_all rx_page_separator to_empty text))))"

subsection \<open>2. Line merging (lines 23-85)\<close>

definition split_lines :: "jsstring \<Rightarrow> jsstring list" where
  \<comment> \<open>\<open>cleaned.split('\n').map((l) => l.trim()).filter((l) => l.length > 0)\<close>\<close>
  "split_lines cleaned = filter (\<lambda>l. length l > 0) (map trim (split_on LF cleaned))"

definition isBulletPoint :: "jsstring \<Rightarrow> bool" where
  \<comment> \<open>\<open>/^[bullets]/.test(currentLine)\<close>\<close>
  "isBulletPoint currentLine \<longleftrightarrow> match_at False [[one cc_bullet]] currentLine \<noteq> None"

definition isHeaderCaps :: "jsstring \<Rightarrow> bool" where
  \<comment> \<open>\<open>/^[A-Z\s&]{2,35}$/.test(currentLine) && currentLine.length < 40\<close>\<close>
  "isHeaderCaps currentLine \<longleftrightarrow>
     match_at True [[times cc_caps 2 35]] currentLine \<noteq> None \<and> length currentLine < 40"

definition isHeaderColon :: "jsstring \<Rightarrow> bool" where
  \<comment> \<open>\<open>/:\s*$/.test(currentLine) && currentLine.length < 50\<close>\<close>
  "isHeaderColon currentLine \<longleftrightarrow>
     search True [[lit 58, star cc_space]] currentLine \<and> length currentLine < 50"

definition isDateRange :: "jsstring \<Rightarrow> bool" where
  \<comment> \<open>\<open>/^[A-Z][a-z]+\s+\d{4}\s*[dash-]/.test(currentLine)\<close>\<close>
  "isDateRange currentLine \<longleftrightarrow>
     match_at False
       [[one cc_upper, plus cc_lower, plus cc_space, times cc_digit 4 4, star cc_space,
         one cc_dash]] currentLine \<noteq> None"

definition isCompanyLocation :: "jsstring \<Rightarrow> bool" where
  \<comment> \<open>\<open>/^[A-Z][A-Za-z\s&]+\([^)]+\)\s+/.test(currentLine)\<close>\<close>
  "isCompanyLocation currentLine \<longleftrightarrow>
     match_at False
       [[one cc_upper, plus cc_company, lit 40, plus cc_not_rparen, lit 41, plus cc_space]]
       currentLine \<noteq> None"

definition isFirstLines :: "nat \<Rightarrow> bool" where
  "isFirstLines i \<longleftrightarrow> i < 2"

definition isNewSection :: "nat \<Rightarrow> jsstring \<Rightarrow> bool" where
  "isNewSection i currentLine \<longleftrightarrow>
     isBulletPoint currentLine \<or> isHeaderCaps currentLine \<or> isHeaderColon currentLine \<or>
     isDateRange currentLine \<or> isCompanyLocation currentLine \<or> isFirstLines i"

definition prevLine :: "jsstring list \<Rightarrow> jsstring" where
  \<comment> \<open>\<open>processedLines[processedLines.length - 1] || ''\<close>\<close>
  "prevLine processedLines = (if processedLines = [] then [] else last processedLines)"

definition shouldMerge :: "nat \<Rightarrow> jsstring \<Rightarrow> jsstring list \<Rightarrow> bool" where
  "shouldMerge i currentLine processedLines \<longleftrightarrow>
     \<not> isNewSection i currentLine \<and> length (prevLine processedLines) > 0 \<and>
     \<not> isBulletPoint currentLine \<and> \<not> endsWith (prevLine processedLines) 58"

definition merge_step :: "nat \<Rightarrow> jsstring \<Rightarrow> jsstring list \<Rightarrow> jsstring list" where
  \<comment> \<open>the body of the loop, lines 30-84: the new value of \<open>processedLines\<close>\<close>
  "merge_step i currentLine processedLines =
     (if shouldMerge i currentLine processedLines \<and> length processedLines > 0
      then processedLines[length processedLines - 1 :=
             prevLine processedLines @ [SP] @ currentLine]
      else processedLines @ [currentLine])"

fun merge_loop :: "nat \<Rightarrow> jsstring list \<Rightarrow> jsstring list \<Rightarrow> jsstring list" where
  \<comment> \<open>the loop from index \<open>i\<close> over the lines that remain\<close>
  "merge_loop i [] processedLines = processedLines"
| "merge_loop i (currentLine # rest) processedLines =
     merge_loop (i + 1) rest (merge_step i currentLine processedLines)"

definition merge_lines :: "jsstring list \<Rightarrow> jsstring list" where
  "merge_lines lines = merge_loop 0 lines []"

subsection \<open>3. Post-processing and formatting (lines 88-111)\<close>

fun keep_punct :: "jsstring list \<Rightarrow> jsstring" where
  \<comment> \<open>\<open>'$1'\<close> of \<open>/\s+([.,;:!?])/\<close>\<close>
  "keep_punct [w, p] = p"
| "keep_punct ps = []"

fun space_puncts :: "jsstring list \<Rightarrow> jsstring" where
  \<comment> \<open>\<open>'$1 $2'\<close> of \<open>/([.,;:!?])\s*([.,;:!?])/\<close>\<close>
  "space_puncts [p, w, q] = p @ [SP] @ q"
| "space_puncts ps = []"

fun space_pipe :: "jsstring list \<Rightarrow> jsstring" where
  \<comment> \<open>\<open>' | '\<close>\<close>
  "space_pipe ps = [SP, 124, SP]"

fun tight_dash :: "jsstring list \<Rightarrow> jsstring" where
  \<comment> \<open>\<open>'$1-$2'\<close> of \<open>/(\w)\s*-\s*(\w)/\<close>\<close>
  "tight_dash [a, w, d, v, b] = a @ [45] @ b"
| "tight_dash ps = []"

fun space_dash :: "jsstring list \<Rightarrow> jsstring" where
  \<comment> \<open>\<open>'$1 - $2'\<close> of \<open>/(\d{4})\s*-\s*(\d{4})/\<close>\<close>
  "space_dash [a, w, d, v, b] = a @ [SP, 45, SP] @ b"
| "space_dash ps = []"

fun tight_at :: "jsstring list \<Rightarrow> jsstring" where
  \<comment> \<open>\<open>'$1@$2'\<close> of \<open>/(\S+)\s*@\s*(\S+)/\<close>\<close>
  "tight_at [a, w, d, v, b] = a @ [64] @ b"
| "tight_at ps = []"

fun to_bullet :: "jsstring list \<Rightarrow> jsstring" where
  "to_bullet ps = [BULLET]"

fun to_two_newlines :: "jsstring list \<Rightarrow> jsstring" where
  "to_two_newlines ps = [LF, LF]"

definition rx_space_punct :: "item list list" where
  "rx_space_punct = [[plus cc_space, one cc_punct]]"

definition rx_punct_punct :: "item list list" where
  "rx_punct_punct = [[one cc_punct, star cc_space, one cc_punct]]"

definition rx_pipe :: "item list list" where
  \<comment> \<open>\<open>/\s*\|\s*/g\<close>\<close>
  "rx_pipe = [[star cc_space, lit 124, star cc_space]]"

definition rx_word_dash :: "item list list" where
  "rx_word_dash = [[one cc_word, star cc_space, lit 45, star cc_space, one cc_word]]"

definition rx_year_dash :: "item list list" where
  "rx_year_dash =
     [[times cc_digit 4 4, star cc_space, lit 45, star cc_space, times cc_digit 4 4]]"

definition rx_at :: "item list list" where
  "rx_at = [[plus cc_nonspace, star cc_space, lit 64, star cc_space, plus cc_nonspace]]"

definition rx_bullet_variant :: "item list list" where
  "rx_bullet_variant = [[one cc_bullet_variant]]"

definition rx_newlines :: "item list list" where
  \<comment> \<open>\<open>/\n{3,}/g\<close>\<close>
  "rx_newlines = [[Item (cc_is LF) 3 None]]"

definition fixSpacing :: "jsstring \<Rightarrow> jsstring" where
  \<comment> \<open>lines 91-106: punctuation, pipes, dashes, e-mail addresses, bullets\<close>
  "fixSpacing cleaned =
     replace_all rx_bullet_variant to_bullet
       (replace_all rx_at tight_at
         (replace_all rx_year_dash space_dash
           (replace_all rx_word_dash tight_dash
             (replace_all rx_pipe space_pipe
               (replace_all rx_punct_punct space_puncts
                 (replace_all rx_space_punct keep_punct cleaned))))))"

definition postProcess :: "jsstring \<Rightarrow> jsstring" where
  \<comment> \<open>lines 91-111, applied to the joined lines\<close>
  "postProcess cleaned = trim (replace_all rx_newlines to_two_newlines (fixSpacing cleaned))"

definition cleanExtractedText :: "jsstring option \<Rightarrow> jsstring" where
  \<comment> \<open>\<open>None\<close> is \<open>null\<close> or \<open>undefined\<close>; the empty string is falsy too\<close>
  "cleanExtractedText text =
     (case text of
        None \<Rightarrow> []
      | Some t \<Rightarrow>
          if t = [] then []
          else postProcess (join_with [LF] (merge_lines (split_lines (normalize t)))))"

section \<open>extractTextFromPDFs\<close>

text \<open>
  The value of a property read from the extractor's result: a string, another truthy
  value (a number, an object, \<open>true\<close>), or a falsy value that is not a string
  (\<open>undefined\<close> for a missing property, \<open>null\<close>, \<open>0\<close>, \<open>false\<close>).
\<close>

datatype js_value = VString jsstring | VTruthy | VFalsy

text \<open>
  The \<open>pages\<close> property: an array, each element given by what \<open>page?.text\<close> evaluates
  to (\<open>undefined\<close> for a \<open>null\<close> page), or anything else (missing, not an array).
\<close>

datatype js_pages = PagesArray "js_value list" | PagesOther

text \<open>
  What \<open>await parser.getText()\<close> resolves to: a string, an object with its \<open>text\<close> and
  \<open>pages\<close> properties, or a value that is neither (\<open>null\<close>, \<open>undefined\<close>, a number).
\<close>

datatype getTextResult = RString jsstring | RObject js_value js_pages | ROther

fun is_string :: "js_value \<Rightarrow> bool" where
  \<comment> \<open>\<open>typeof v === 'string'\<close>\<close>
  "is_string (VString t) = True"
| "is_string v = False"

datatype error =
    ExtractorError \<comment> \<open>thrown by \<open>new PDFParse\<close> or by \<open>getText\<close>\<close>
  | TypeError \<comment> \<open>\<open>text.trim is not a function\<close>\<close>

fun page_text :: "js_value \<Rightarrow> error + jsstring" where
  \<comment> \<open>\<open>page?.text || ''\<close>, then \<open>text?.trim()\<close> in the filter: a truthy value that is
      not a string has no \<open>trim\<close>\<close>
  "page_text (VString t) = Inr t"
| "page_text VTruthy = Inl TypeError"
| "page_text VFalsy = Inr []"

fun page_texts :: "js_value list \<Rightarrow> error + jsstring list" where
  "page_texts [] = Inr []"
| "page_texts (p # ps) =
     (case page_text p of
        Inl e \<Rightarrow> Inl e
      | Inr t \<Rightarrow> (case page_texts ps of Inl e \<Rightarrow> Inl e | Inr ts \<Rightarrow> Inr (t # ts)))"

fun plainText :: "getTextResult \<Rightarrow> error + jsstring" where
  \<comment> \<open>lines 134-154\<close>
  "plainText (RString result) = Inr result"
| "plainText (RObject (VString t) pages) = Inr t"
| "plainText (RObject v (PagesArray pages)) =
     (if length pages > 0
      then (case page_texts pages of
              Inl e \<Rightarrow> Inl e
            | Inr ts \<Rightarrow> Inr (join_with [LF, LF] (filter (\<lambda>t. length (trim t) > 0) ts)))
      else Inr [])"
| "plainText (RObject v PagesOther) = Inr []"
| "plainText ROther = Inr []"

text \<open>
  The state of one call: the array under construction, and what the call has done to the
  outside, namely the documents handed to the extractor and the errors written with
  \<open>console.error\<close>.
\<close>

record 'b batch =
  extractedTexts :: "jsstring list"
  parsed :: "'b list"
  logged :: "error list"

definition process_buffer ::
  "('b \<Rightarrow> error + getTextResult) \<Rightarrow> 'b option \<Rightarrow> 'b batch \<Rightarrow> 'b batch" where
  \<comment> \<open>the body of the loop, lines 124-164; \<open>None\<close> is a \<open>null\<close> or \<open>undefined\<close> buffer\<close>
  "process_buffer getText buffer st =
     (case buffer of
        None \<Rightarrow> st\<lparr>extractedTexts := extractedTexts st @ [[]]\<rparr>
      | Some b \<Rightarrow>
          (let st1 = st\<lparr>parsed := parsed st @ [b]\<rparr> in
           case getText b of
             Inl e \<Rightarrow> st1\<lparr>logged := logged st1 @ [e], extractedTexts := extractedTexts st1 @ [[]]\<rparr>
           | Inr result \<Rightarrow>
               (case plainText result of
                  Inl e \<Rightarrow>
                    st1\<lparr>logged := logged st1 @ [e], extractedTexts := extractedTexts st1 @ [[]]\<rparr>
                | Inr t \<Rightarrow>
                    st1\<lparr>extractedTexts := extractedTexts st1 @ [cleanExtractedText (Some t)]\<rparr>)))"

fun process_buffers ::
  "('b \<Rightarrow> error + getTextResult) \<Rightarrow> 'b option list \<Rightarrow> 'b batch \<Rightarrow> 'b batch" where
  \<comment> \<open>\<open>for (const buffer of buffers)\<close>\<close>
  "process_buffers getText [] st = st"
| "process_buffers getText (buffer # buffers) st =
     process_buffers getText buffers (process_buffer getText buffer st)"

definition run_batch :: "('b \<Rightarrow> error + getTextResult) \<Rightarrow> 'b option list \<Rightarrow> 'b batch" where
  "run_batch getText buffers =
     process_buffers getText buffers \<lparr>extractedTexts = [], parsed = [], logged = []\<rparr>"

definition extractTextFromPDFs ::
  "('b \<Rightarrow> error + getTextResult) \<Rightarrow> 'b option list \<Rightarrow> jsstring list" where
  \<comment> \<open>the argument is an array by its type, so the guard of line 119 is not taken\<close>
  "extractTextFromPDFs getText buffers = extractedTexts (run_batch getText buffers)"

definition document_text :: "('b \<Rightarrow> error + getTextResult) \<Rightarrow> 'b option \<Rightarrow> jsstring" where
  \<comment> \<open>the string that one pass of the loop body appends\<close>
  "document_text getText buffer = last (extractedTexts (process_buffer getText buffer
      \<lparr>extractedTexts = [], parsed = [], logged = []\<rparr>))"

section \<open>Notions used in the statements and proofs\<close>

text \<open>
  \<open>fits i k p\<close>: the text \<open>p\<close> can be what item \<open>i\<close> matches after it has already taken
  \<open>k\<close> characters.
\<close>

fun fits :: "item \<Rightarrow> nat \<Rightarrow> jsstring \<Rightarrow> bool" where
  "fits (Item c l h) k p \<longleftrightarrow>
     (\<forall>x\<in>set p. c x) \<and> l \<le> k + length p \<and>
     (\<forall>n. h = Some n \<longrightarrow> p = [] \<or> k + length p \<le> n)"



text \<open>
  \<open>nl_ok b s\<close>: no two newlines of \<open>s\<close> have only whitespace between them, where \<open>b\<close>
  says that a newline precedes \<open>s\<close> with only whitespace since.  \<open>nl_state b s\<close> is that flag
  after \<open>s\<close>.
\<close>

fun nl_ok :: "bool \<Rightarrow> jsstring \<Rightarrow> bool" where
  "nl_ok b [] = True"
| "nl_ok b (x # xs) =
     (if x = LF then \<not> b \<and> nl_ok True xs
      else if cc_space x then nl_ok b xs
      else nl_ok False xs)"

fun nl_state :: "bool \<Rightarrow> jsstring \<Rightarrow> bool" where
  "nl_state b [] = b"
| "nl_state b (x # xs) = nl_state (if x = LF then True else if cc_space x then b else False) xs"

text \<open>A line as the loop sees it: not empty, without a newline, not ending in whitespace.\<close>

definition good_line :: "jsstring \<Rightarrow> bool" where
  "good_line l \<longleftrightarrow> l \<noteq> [] \<and> LF \<notin> set l \<and> \<not> cc_space (last l)"


text \<open>Sample lines: a name, a title, a colon header and two lines of body text.\<close>

definition sample_lines :: "jsstring list" where
  "sample_lines =
     [js ''Jane Roe'', js ''Engineer'', js ''Languages:'', js ''Python, Rust'', js ''and Go'']"

text \<open>
  A sample extractor and batch: document 0 is flat text, the extractor throws on
  document 1, the third slot is absent, document 2 is page-structured with an empty and
  a missing page text.
\<close>

definition sample_getText :: "nat \<Rightarrow> error + getTextResult" where
  "sample_getText b =
     (if b = 0 then Inr (RString (js ''Hello ,world''))
      else if b = 1 then Inl ExtractorError
      else Inr (RObject VFalsy
             (PagesArray [VString (js ''page one''), VString (js ''  ''), VFalsy,
                          VString (js ''page two'')])))"

definition sample_buffers :: "nat option list" where
  "sample_buffers = [Some 0, Some 1, None, Some 2]"

section \<open>Evaluation\<close>

lemmas cc_defs = cc_space_def cc_nonspace_def cc_digit_def cc_upper_def cc_lower_def cc_word_def
  cc_punct_def cc_control_def cc_bullet_variant_def cc_bullet_def cc_caps_def cc_dash_def
  cc_company_def cc_not_rparen_def cc_is_def BULLET_def LF_def CR_def TAB_def SP_def

lemmas rx_defs = one_def lit_def star_def plus_def times_def rx_page_separator_def
  rx_control_def rx_line_break_def rx_tab_def rx_spaces_def rx_space_punct_def
  rx_punct_punct_def rx_pipe_def rx_word_dash_def rx_year_dash_def rx_at_def
  rx_bullet_variant_def rx_newlines_def

lemmas line_defs = isBulletPoint_def isHeaderCaps_def isHeaderColon_def isDateRange_def
  isCompanyLocation_def isFirstLines_def isNewSection_def prevLine_def shouldMerge_def
  merge_step_def merge_lines_def endsWith_def split_lines_def trim_def normalize_def

lemmas eval_defs = js_def cc_defs rx_defs line_defs fixSpacing_def postProcess_def
  cleanExtractedText_def

section \<open>Properties of the matcher\<close>
lemma match_items_fits:
  "match_items e (it # its) k s = Some ps \<Longrightarrow>
     \<exists>p ps'. ps = p # ps' \<and> fits it k p \<and> match_items e its 0 (drop (length p) s) = Some ps'"
proof (induction s arbitrary: k ps)
  case Nil
  then show ?case by (cases it) (auto split: if_splits)
next
  case (Cons x xs)
  obtain c l h where it: "it = Item c l h" by (cases it)
  show ?case
  proof (cases "c x \<and> may_take k h")
    case True
    show ?thesis
    proof (cases "match_items e (Item c l h # its) (k + 1) xs")
      case None
      with True Cons.prems show ?thesis by (auto simp: it split: if_splits)
    next
      case (Some ps1)
      with True Cons.prems have ps: "ps = push x ps1" by (simp add: it)
      from Cons.IH[of "k + 1" ps1] Some obtain p ps' where
        *: "ps1 = p # ps'" "fits it (k + 1) p" "match_items e its 0 (drop (length p) xs) = Some ps'"
        by (auto simp: it)
      from True have "\<forall>n. h = Some n \<longrightarrow> k + 1 \<le> n"
        by auto
      with * True show ?thesis
        by (auto simp: ps it)
    qed
  next
    case False
    with Cons.prems show ?thesis by (auto simp: it split: if_splits)
  qed
qed


lemma match_items_all:
  "match_items e its 0 s = Some ps \<Longrightarrow> list_all2 (\<lambda>i p. fits i 0 p) its ps"
proof (induction its arbitrary: s ps)
  case Nil
  then show ?case by (auto split: if_splits)
next
  case (Cons it its)
  from match_items_fits[OF Cons.prems] obtain p ps' where
    "ps = p # ps'" "fits it 0 p" "match_items e its 0 (drop (length p) s) = Some ps'"
    by blast
  with Cons.IH show ?case by auto
qed

lemma concat_push: "concat (push x ps) = x # concat ps"
  by (cases ps) simp_all

lemma match_items_prefix:
  "match_items e its k s = Some ps \<Longrightarrow> \<exists>rest. s = concat ps @ rest \<and> (e \<longrightarrow> rest = [])"
proof (induction e its k s arbitrary: ps rule: match_items.induct)
  case (1 e k s)
  then show ?case by (auto split: if_splits)
next
  case (2 e c l h its k)
  then show ?case by (auto split: if_splits)
next
  case (3 e c l h its k x xs)
  show ?case
  proof (cases "c x \<and> may_take k h")
    case True
    show ?thesis
    proof (cases "match_items e (Item c l h # its) (k + 1) xs")
      case None
      with True 3 show ?thesis by (auto split: if_splits)
    next
      case (Some ps1)
      with True 3(4) have ps: "ps = push x ps1" by simp
      from 3(1)[OF True Some] obtain rest where "xs = concat ps1 @ rest" "e \<longrightarrow> rest = []"
        by blast
      then show ?thesis by (auto simp: ps concat_push)
    qed
  next
    case False
    with 3 show ?thesis by (auto split: if_splits)
  qed
qed

lemma match_at_alt:
  "match_at e alts s = Some ps \<Longrightarrow> \<exists>a\<in>set alts. match_items e a 0 s = Some ps"
  by (induction alts) (auto split: option.splits)

lemma match_at_prefix:
  "match_at e alts s = Some ps \<Longrightarrow> \<exists>rest. s = concat ps @ rest \<and> (e \<longrightarrow> rest = [])"
  using match_at_alt match_items_prefix by blast

lemma match_at_single:
  "match_at e [a] s = Some ps \<Longrightarrow>
     list_all2 (\<lambda>i p. fits i 0 p) a ps \<and> (\<exists>rest. s = concat ps @ rest \<and> (e \<longrightarrow> rest = []))"
  using match_items_all match_items_prefix by (auto split: option.splits)









lemma dash_shape:
  assumes "list_all2 (\<lambda>i p. fits i 0 p) [i1, star cc_space, lit c, star cc_space, i2] ps"
  obtains a w v b where "ps = [a, w, [c], v, b]" "\<forall>x\<in>set w. cc_space x"
    "\<forall>x\<in>set v. cc_space x" "fits i1 0 a" "fits i2 0 b"
proof -
  from assms obtain a w d v b where ps: "ps = [a, w, d, v, b]" and w: "\<forall>x\<in>set w. cc_space x"
    and v: "\<forall>x\<in>set v. cc_space x" and d: "\<forall>x\<in>set d. x = c" "length d = 1"
    and ab: "fits i1 0 a" "fits i2 0 b"
    by (auto simp: list_all2_Cons1 star_def lit_def cc_is_def)
  from d have "d = [c]" by (cases d) auto
  with ps w v ab that show thesis by simp
qed

















lemma match_whole_class:
  "k \<le> h \<Longrightarrow>
   match_items True [Item c l (Some h)] k s \<noteq> None \<longleftrightarrow>
     (\<forall>x\<in>set s. c x) \<and> l \<le> k + length s \<and> k + length s \<le> h"
proof (induction s arbitrary: k)
  case Nil
  then show ?case by simp
next
  case (Cons x xs)
  show ?case
  proof (cases "c x \<and> k < h")
    case True
    with Cons.IH[of "k + 1"] show ?thesis
      by (auto split: option.splits)
  next
    case False
    with Cons.prems show ?thesis by auto
  qed
qed

lemma isHeaderCaps_iff:
  "isHeaderCaps l \<longleftrightarrow> (\<forall>c\<in>set l. cc_caps c) \<and> 2 \<le> length l \<and> length l \<le> 35"
  using match_whole_class[of 0 35 cc_caps 2 l]
  by (auto simp: isHeaderCaps_def times_def split: option.splits)

section \<open>Properties of the batch loop\<close>

lemma process_buffer_texts:
  "extractedTexts (process_buffer g b st) = extractedTexts st @ [document_text g b]"
  by (simp add: process_buffer_def document_text_def Let_def split: option.splits sum.splits)

lemma process_buffer_parsed:
  "parsed (process_buffer g b st) = parsed st @ (case b of None \<Rightarrow> [] | Some x \<Rightarrow> [x])"
  by (simp add: process_buffer_def Let_def split: option.splits sum.splits)

lemma process_buffers_texts:
  "extractedTexts (process_buffers g bs st) = extractedTexts st @ map (document_text g) bs"
  by (induction bs arbitrary: st) (simp_all add: process_buffer_texts)

lemma process_buffers_parsed:
  "parsed (process_buffers g bs st) = parsed st @ List.map_filter (\<lambda>b. b) bs"
  by (induction bs arbitrary: st)
    (auto simp: process_buffer_parsed List.map_filter_simps split: option.splits)

lemma extract_map: "extractTextFromPDFs g bs = map (document_text g) bs"
  by (simp add: extractTextFromPDFs_def run_batch_def process_buffers_texts)

lemma document_text_cases:
  "document_text g buffer =
     (case buffer of
        None \<Rightarrow> []
      | Some b \<Rightarrow>
          (case g b of
             Inl e \<Rightarrow> []
           | Inr result \<Rightarrow>
               (case plainText result of Inl e \<Rightarrow> [] | Inr t \<Rightarrow> cleanExtractedText (Some t))))"
  by (simp add: document_text_def process_buffer_def Let_def split: option.splits sum.splits)

lemma sample_texts:
  "extractTextFromPDFs sample_getText sample_buffers =
     [js ''Hello,world'', [], [], js ''page one'' @ [LF] @ js ''page two'']"
  by (simp add: extract_map document_text_cases sample_buffers_def sample_getText_def eval_defs)


section \<open>Properties of the line loop and of the repair\<close>

lemma update_last: "xs \<noteq> [] \<Longrightarrow> xs[length xs - Suc 0 := v] = butlast xs @ [v]"
  by (induction xs rule: rev_induct) (simp_all add: list_update_append)

lemma merge_step_rule:
  assumes "\<forall>p\<in>set processedLines. p \<noteq> []"
  shows "merge_step i L processedLines =
     (if \<not> isNewSection i L \<and> processedLines \<noteq> [] \<and> \<not> isBulletPoint L \<and>
         \<not> endsWith (last processedLines) 58
      then butlast processedLines @ [last processedLines @ [SP] @ L]
      else processedLines @ [L])"
proof (cases "processedLines = []")
  case True
  then show ?thesis by (simp add: merge_step_def)
next
  case False
  with assms have "last processedLines \<noteq> []" by simp
  with False show ?thesis
    by (simp add: merge_step_def shouldMerge_def prevLine_def update_last)
qed

lemma merge_step_nonempty:
  "\<forall>p\<in>set acc. p \<noteq> [] \<Longrightarrow> L \<noteq> [] \<Longrightarrow> \<forall>p\<in>set (merge_step i L acc). p \<noteq> []"
proof -
  assume a: "\<forall>p\<in>set acc. p \<noteq> []" and l: "L \<noteq> []"
  show ?thesis
    unfolding merge_step_rule[OF a] using a l by (auto dest: in_set_butlastD)
qed

lemma merge_loop_snoc:
  "merge_loop i (xs @ [x]) acc = merge_step (i + length xs) x (merge_loop i xs acc)"
  by (induction xs arbitrary: i acc) simp_all

lemma merge_loop_nonempty:
  "\<forall>p\<in>set acc. p \<noteq> [] \<Longrightarrow> \<forall>l\<in>set ls. l \<noteq> [] \<Longrightarrow> \<forall>p\<in>set (merge_loop i ls acc). p \<noteq> []"
proof (induction ls arbitrary: i acc)
  case Nil
  then show ?case by simp
next
  case (Cons l ls)
  from Cons.prems have "\<forall>p\<in>set (merge_step i l acc). p \<noteq> []"
    by (intro merge_step_nonempty) simp_all
  from Cons.IH[OF this] Cons.prems(2) show ?case by simp
qed

lemma split_lines_nonempty: "\<forall>l\<in>set (split_lines cleaned). l \<noteq> []"
  by (simp add: split_lines_def)

lemma sample_lines3:
  "merge_loop 0 (take 3 sample_lines) [] = [js ''Jane Roe'', js ''Engineer'', js ''Languages:'']"
  by (simp add: sample_lines_def eval_defs)

lemma sample_lines_new:
  "\<not> isNewSection 3 (js ''Python, Rust'')" "\<not> isNewSection 4 (js ''and Go'')"
  "\<not> isBulletPoint (js ''and Go'')"
  by (simp_all add: eval_defs)

lemma sample_lines_nth:
  "sample_lines ! 3 = js ''Python, Rust''" "sample_lines ! 4 = js ''and Go''"
  by (simp_all add: sample_lines_def)

lemma merge_step_snoc:
  "merge_step i l (a @ [p]) = a @ [p @ [SP] @ l] \<or> merge_step i l (a @ [p]) = a @ [p, l]"
  by (simp add: merge_step_def prevLine_def)

lemma merge_loop_grows: "\<exists>q qs. merge_loop i rest (a @ [p]) = a @ (p @ q) # qs"
proof (induction rest arbitrary: i a p)
  case Nil
  show ?case by simp
next
  case (Cons l ls)
  from merge_step_snoc[of i l a p] show ?case
  proof
    assume "merge_step i l (a @ [p]) = a @ [p @ [SP] @ l]"
    with Cons.IH[of "i + 1" a "p @ [SP] @ l"] show ?thesis by auto
  next
    assume "merge_step i l (a @ [p]) = a @ [p, l]"
    with Cons.IH[of "i + 1" "a @ [p]" l] show ?thesis by auto
  qed
qed

lemma first_lines_new: "isNewSection 0 L" "isNewSection 1 L" "isNewSection (Suc 0) L"
  by (simp_all add: isNewSection_def isFirstLines_def)

lemma new_section_appends: "isNewSection i L \<Longrightarrow> merge_step i L acc = acc @ [L]"
  by (simp add: merge_step_def shouldMerge_def)



lemma nl_ok_append: "nl_ok b (u @ v) \<longleftrightarrow> nl_ok b u \<and> nl_ok (nl_state b u) v"
  by (induction u arbitrary: b) simp_all

lemma nl_ok_weaken: "nl_ok b s \<Longrightarrow> nl_ok False s"
  by (induction s arbitrary: b) (auto split: if_splits)

lemma nl_ok_no_LF: "LF \<notin> set s \<Longrightarrow> nl_ok b s"
  by (induction s arbitrary: b) auto

lemma nl_state_last: "s \<noteq> [] \<Longrightarrow> \<not> cc_space (last s) \<Longrightarrow> nl_state b s = False"
proof (induction s arbitrary: b)
  case Nil
  then show ?case by simp
next
  case (Cons x xs)
  have "cc_space LF" by (simp add: cc_space_def LF_def)
  with Cons show ?case by (cases "xs = []") auto
qed

lemma nl_ok_double: "\<not> nl_ok b (u @ [LF, LF] @ v)"
  by (simp add: nl_ok_append)

lemma replace_all_nl_ok:
  assumes m: "\<And>s ps b. match_at False alts s = Some ps \<Longrightarrow> nl_ok b s \<Longrightarrow>
              concat ps \<noteq> [] \<and> LF \<notin> set (f ps) \<and> (\<forall>b'. nl_state b' (f ps) = False)"
  shows "nl_ok b s \<Longrightarrow> nl_ok b (replace_all alts f s)"
proof (induction s arbitrary: b rule: length_induct)
  case (1 s)
  show ?case
  proof (cases s)
    case Nil
    show ?thesis
    proof (cases "match_at False alts []")
      case None
      then show ?thesis by (simp add: Nil)
    next
      case (Some ps)
      from match_at_prefix[OF Some] m[OF Some, of b] show ?thesis by simp
    qed
  next
    case (Cons x xs)
    show ?thesis
    proof (cases "match_at False alts (x # xs)")
      case None
      from 1 have ih: "\<And>b'. nl_ok b' xs \<Longrightarrow> nl_ok b' (replace_all alts f xs)"
        by (simp add: Cons)
      from 1(2) None show ?thesis
        by (auto simp: Cons ih split: if_splits)
    next
      case (Some ps)
      from 1(2) have ok: "nl_ok b (x # xs)" by (simp add: Cons)
      from m[OF Some ok] have ne: "concat ps \<noteq> []" and f: "LF \<notin> set (f ps)"
        "\<And>b'. nl_state b' (f ps) = False"
        by simp_all
      from match_at_prefix[OF Some] obtain rest where r: "x # xs = concat ps @ rest" by blast
      with ne have d: "drop (length (concat ps) - 1) xs = rest"
        by (cases "concat ps") auto
      have "length (x # xs) = length (concat ps) + length rest"
        by (subst r) simp
      with ne have len: "length rest < length s" by (cases "concat ps") (simp_all add: Cons)
      from ok have "nl_ok (nl_state b (concat ps)) rest"
        by (subst (asm) r) (simp add: nl_ok_append)
      then have "nl_ok False rest" by (rule nl_ok_weaken)
      with 1(1) len have ih: "nl_ok False (replace_all alts f rest)" by simp
      have "replace_all alts f (x # xs) = f ps @ replace_all alts f rest"
        using Some ne d by (simp del: concat_eq_Nil_conv One_nat_def)
      with ih f show ?thesis
        by (simp add: Cons nl_ok_append nl_ok_no_LF)
    qed
  qed
qed

lemma LF_space: "cc_space LF"
  by (simp add: cc_space_def LF_def)

lemma class_not_space:
  "cc_punct c \<Longrightarrow> \<not> cc_space c" "cc_word c \<Longrightarrow> \<not> cc_space c" "cc_digit c \<Longrightarrow> \<not> cc_space c"
  "cc_nonspace c \<Longrightarrow> \<not> cc_space c"
  by (auto simp: cc_punct_def cc_word_def cc_upper_def cc_lower_def cc_digit_def cc_space_def
      cc_nonspace_def)

lemma not_space_not_LF: "\<not> cc_space c \<Longrightarrow> c \<noteq> LF"
  using LF_space by auto

lemma nonspace_string:
  "\<forall>x\<in>set p. \<not> cc_space x \<Longrightarrow> LF \<notin> set p"
  "\<forall>x\<in>set p. \<not> cc_space x \<Longrightarrow> p \<noteq> [] \<Longrightarrow> \<not> cc_space (last p)"
  using LF_space by auto

lemma SP_not_LF: "SP \<noteq> LF" "LF \<noteq> SP" "LF \<noteq> 45" "LF \<noteq> 64" "LF \<noteq> 124" "LF \<noteq> BULLET"
  "BULLET \<noteq> LF"
  "\<not> cc_space BULLET"
  by (simp_all add: SP_def LF_def BULLET_def cc_space_def)

lemma nl_ok_space_punct: "nl_ok b s \<Longrightarrow> nl_ok b (replace_all rx_space_punct keep_punct s)"
proof (rule replace_all_nl_ok)
  fix s ps b assume "match_at False rx_space_punct s = Some ps"
  from match_at_single[OF this[unfolded rx_space_punct_def]]
  obtain w p where ps: "ps = [w, p]" and w: "1 \<le> length w" and p: "\<forall>x\<in>set p. cc_punct x" "length p = 1"
    by (auto simp: list_all2_Cons1 plus_def one_def)
  from p have "\<forall>x\<in>set p. \<not> cc_space x" "p \<noteq> []" by (auto simp: class_not_space)
  with w show "concat ps \<noteq> [] \<and> LF \<notin> set (keep_punct ps) \<and>
     (\<forall>b'. nl_state b' (keep_punct ps) = False)"
    by (auto simp: ps nonspace_string nl_state_last)
qed

lemma nl_ok_punct_punct: "nl_ok b s \<Longrightarrow> nl_ok b (replace_all rx_punct_punct space_puncts s)"
proof (rule replace_all_nl_ok)
  fix s ps b assume "match_at False rx_punct_punct s = Some ps"
  from match_at_single[OF this[unfolded rx_punct_punct_def]]
  obtain p w q where ps: "ps = [p, w, q]" and p: "\<forall>x\<in>set p. cc_punct x" "length p = 1"
    and q: "\<forall>x\<in>set q. cc_punct x" "length q = 1"
    by (auto simp: list_all2_Cons1 star_def one_def)
  from p q have "\<forall>x\<in>set p. \<not> cc_space x" "p \<noteq> []" "\<forall>x\<in>set q. \<not> cc_space x" "q \<noteq> []"
    by (auto simp: class_not_space)
  then show "concat ps \<noteq> [] \<and> LF \<notin> set (space_puncts ps) \<and>
     (\<forall>b'. nl_state b' (space_puncts ps) = False)"
    by (auto simp: ps nonspace_string SP_not_LF nl_state_last)
qed

lemma nl_ok_pipe: "nl_ok b s \<Longrightarrow> nl_ok b (replace_all rx_pipe space_pipe s)"
proof (rule replace_all_nl_ok)
  fix s ps b assume "match_at False rx_pipe s = Some ps"
  from match_at_single[OF this[unfolded rx_pipe_def]]
  obtain w d v where ps: "ps = [w, d, v]" and d: "length d = 1"
    by (auto simp: list_all2_Cons1 star_def lit_def)
  then show "concat ps \<noteq> [] \<and> LF \<notin> set (space_pipe ps) \<and>
     (\<forall>b'. nl_state b' (space_pipe ps) = False)"
    by (auto simp: SP_not_LF) (simp_all add: cc_space_def SP_def LF_def)
qed

lemma dash_nl:
  assumes "ps = [a, w, [c], v, b]" "\<forall>x\<in>set a. \<not> cc_space x" "\<forall>x\<in>set b. \<not> cc_space x"
    "b \<noteq> []" "LF \<notin> set m"
  shows "concat ps \<noteq> [] \<and> LF \<notin> set (a @ m @ b) \<and> (\<forall>b'. nl_state b' (a @ m @ b) = False)"
  using assms by (auto simp: nonspace_string nl_state_last)

lemma nl_ok_word_dash: "nl_ok b s \<Longrightarrow> nl_ok b (replace_all rx_word_dash tight_dash s)"
proof (rule replace_all_nl_ok)
  fix s ps b assume "match_at False rx_word_dash s = Some ps"
  from match_at_single[OF this[unfolded rx_word_dash_def]]
  have "list_all2 (\<lambda>i p. fits i 0 p) [one cc_word, star cc_space, lit 45, star cc_space, one cc_word] ps"
    by simp
  then obtain a w v b where ps: "ps = [a, w, [45], v, b]" and ab: "fits (one cc_word) 0 a"
    "fits (one cc_word) 0 b"
    by (rule dash_shape)
  from ab have "\<forall>x\<in>set a. \<not> cc_space x" "\<forall>x\<in>set b. \<not> cc_space x" "b \<noteq> []"
    by (auto simp: one_def class_not_space)
  from dash_nl[OF ps this, of "[45]"]
  show "concat ps \<noteq> [] \<and> LF \<notin> set (tight_dash ps) \<and> (\<forall>b'. nl_state b' (tight_dash ps) = False)"
    by (simp add: ps SP_not_LF)
qed

lemma nl_ok_year_dash: "nl_ok b s \<Longrightarrow> nl_ok b (replace_all rx_year_dash space_dash s)"
proof (rule replace_all_nl_ok)
  fix s ps b assume "match_at False rx_year_dash s = Some ps"
  from match_at_single[OF this[unfolded rx_year_dash_def]]
  have "list_all2 (\<lambda>i p. fits i 0 p)
          [times cc_digit 4 4, star cc_space, lit 45, star cc_space, times cc_digit 4 4] ps"
    by simp
  then obtain a w v b where ps: "ps = [a, w, [45], v, b]" and ab: "fits (times cc_digit 4 4) 0 a"
    "fits (times cc_digit 4 4) 0 b"
    by (rule dash_shape)
  from ab have "\<forall>x\<in>set a. \<not> cc_space x" "\<forall>x\<in>set b. \<not> cc_space x" "b \<noteq> []"
    by (auto simp: times_def class_not_space)
  from dash_nl[OF ps this, of "[SP, 45, SP]"]
  show "concat ps \<noteq> [] \<and> LF \<notin> set (space_dash ps) \<and> (\<forall>b'. nl_state b' (space_dash ps) = False)"
    by (simp add: ps SP_not_LF)
qed

lemma nl_ok_at: "nl_ok b s \<Longrightarrow> nl_ok b (replace_all rx_at tight_at s)"
proof (rule replace_all_nl_ok)
  fix s ps b assume "match_at False rx_at s = Some ps"
  from match_at_single[OF this[unfolded rx_at_def]]
  have "list_all2 (\<lambda>i p. fits i 0 p)
          [plus cc_nonspace, star cc_space, lit 64, star cc_space, plus cc_nonspace] ps"
    by simp
  then obtain a w v b where ps: "ps = [a, w, [64], v, b]" and ab: "fits (plus cc_nonspace) 0 a"
    "fits (plus cc_nonspace) 0 b"
    by (rule dash_shape)
  from ab have "\<forall>x\<in>set a. \<not> cc_space x" "\<forall>x\<in>set b. \<not> cc_space x" "b \<noteq> []"
    by (auto simp: plus_def class_not_space)
  from dash_nl[OF ps this, of "[64]"]
  show "concat ps \<noteq> [] \<and> LF \<notin> set (tight_at ps) \<and> (\<forall>b'. nl_state b' (tight_at ps) = False)"
    by (simp add: ps SP_not_LF)
qed

lemma nl_ok_bullet_variant:
  "nl_ok b s \<Longrightarrow> nl_ok b (replace_all rx_bullet_variant to_bullet s)"
proof (rule replace_all_nl_ok)
  fix s ps b assume "match_at False rx_bullet_variant s = Some ps"
  from match_at_single[OF this[unfolded rx_bullet_variant_def]]
  obtain p where ps: "ps = [p]" and p: "length p = 1"
    by (auto simp: list_all2_Cons1 one_def)
  then show "concat ps \<noteq> [] \<and> LF \<notin> set (to_bullet ps) \<and>
     (\<forall>b'. nl_state b' (to_bullet ps) = False)"
    by (auto simp: SP_not_LF)
qed

lemma nl_ok_fixSpacing: "nl_ok b s \<Longrightarrow> nl_ok b (fixSpacing s)"
  by (simp add: fixSpacing_def nl_ok_bullet_variant nl_ok_at nl_ok_year_dash nl_ok_word_dash
      nl_ok_pipe nl_ok_punct_punct nl_ok_space_punct)

lemma newlines_no_match:
  assumes "nl_ok b s"
  shows "match_at False rx_newlines s = None"
proof (cases "match_at False rx_newlines s")
  case None
  then show ?thesis .
next
  case (Some ps)
  from match_at_single[OF this[unfolded rx_newlines_def]]
  obtain n rest where ps: "ps = [n]" and n: "\<forall>x\<in>set n. x = LF" "3 \<le> length n"
    and s: "s = n @ rest"
    by (auto simp: list_all2_Cons1 cc_is_def)
  from n obtain m where "n = LF # LF # m"
    by (cases n; cases "tl n") auto
  with assms s show ?thesis by simp
qed

lemma newlines_identity: "nl_ok b s \<Longrightarrow> replace_all rx_newlines to_two_newlines s = s"
proof (induction s arbitrary: b)
  case Nil
  from newlines_no_match[OF this] show ?case by (simp del: to_two_newlines.simps)
next
  case (Cons x xs)
  from Cons.prems have "\<exists>b'. nl_ok b' xs" by (auto split: if_splits)
  with Cons.IH have "replace_all rx_newlines to_two_newlines xs = xs" by blast
  with newlines_no_match[OF Cons.prems] show ?case
    by (simp del: to_two_newlines.simps)
qed

lemma nl_ok_dropWhile: "nl_ok b s \<Longrightarrow> nl_ok False (dropWhile cc_space s)"
proof (induction s arbitrary: b)
  case Nil
  then show ?case by simp
next
  case (Cons x xs)
  show ?case
  proof (cases "cc_space x")
    case True
    with Cons.prems have "\<exists>b'. nl_ok b' xs" by (auto split: if_splits)
    with Cons.IH True show ?thesis by auto
  next
    case False
    with Cons.prems show ?thesis by (auto simp: not_space_not_LF)
  qed
qed

lemma nl_ok_trim: "nl_ok b s \<Longrightarrow> nl_ok False (trim s)"
proof -
  assume "nl_ok b s"
  then have ok: "nl_ok False (dropWhile cc_space s)" by (rule nl_ok_dropWhile)
  have "dropWhile cc_space s =
      rev (dropWhile cc_space (rev (dropWhile cc_space s))) @
      rev (takeWhile cc_space (rev (dropWhile cc_space s)))"
    by (metis rev_append rev_rev_ident takeWhile_dropWhile_id)
  then have "dropWhile cc_space s = trim s @ rev (takeWhile cc_space (rev (dropWhile cc_space s)))"
    by (simp add: trim_def)
  with ok show ?thesis by (metis nl_ok_append)
qed

lemma nl_ok_postProcess: "nl_ok b s \<Longrightarrow> nl_ok False (postProcess s)"
proof -
  assume "nl_ok b s"
  then have f: "nl_ok b (fixSpacing s)" by (rule nl_ok_fixSpacing)
  then have "nl_ok False (trim (fixSpacing s))" by (rule nl_ok_trim)
  with newlines_identity[OF f] show ?thesis by (simp only: postProcess_def)
qed

lemma split_on_no_sep: "p \<in> set (split_on d s) \<Longrightarrow> d \<notin> set p"
proof (induction s arbitrary: p)
  case Nil
  then show ?case by simp
next
  case (Cons x xs)
  show ?case
  proof (cases "x = d")
    case True
    with Cons show ?thesis by auto
  next
    case False
    with Cons show ?thesis by (cases "split_on d xs") auto
  qed
qed

lemma trim_subset: "set (trim s) \<subseteq> set s"
  by (auto simp: trim_def dest!: set_dropWhileD)

lemma trim_last: "trim s \<noteq> [] \<Longrightarrow> \<not> cc_space (last (trim s))"
proof -
  assume ne: "trim s \<noteq> []"
  let ?ys = "dropWhile cc_space (rev (dropWhile cc_space s))"
  from ne have ys: "?ys \<noteq> []" by (simp add: trim_def)
  then have "\<not> cc_space (hd ?ys)" by (rule hd_dropWhile)
  with ys show ?thesis by (simp add: trim_def last_rev)
qed

lemma split_lines_good: "l \<in> set (split_lines cleaned) \<Longrightarrow> good_line l"
  using split_on_no_sep trim_subset trim_last
  by (fastforce simp: split_lines_def good_line_def)

lemma merge_step_good:
  assumes "\<forall>p\<in>set acc. good_line p" and "good_line L"
  shows "\<forall>p\<in>set (merge_step i L acc). good_line p"
proof -
  from assms(1) have ne: "\<forall>p\<in>set acc. p \<noteq> []" by (auto simp: good_line_def)
  have "acc \<noteq> [] \<Longrightarrow> good_line (last acc @ [SP] @ L)"
    using assms by (auto simp: good_line_def SP_not_LF)
  with assms show ?thesis
    unfolding merge_step_rule[OF ne] by (auto dest: in_set_butlastD)
qed

lemma merge_loop_good:
  "\<forall>p\<in>set acc. good_line p \<Longrightarrow> \<forall>l\<in>set ls. good_line l \<Longrightarrow>
   \<forall>p\<in>set (merge_loop i ls acc). good_line p"
proof (induction ls arbitrary: i acc)
  case Nil
  then show ?case by simp
next
  case (Cons l ls)
  from Cons.prems have "\<forall>p\<in>set (merge_step i l acc). good_line p"
    by (intro merge_step_good) simp_all
  from Cons.IH[OF this] Cons.prems(2) show ?case by simp
qed

lemma join_good: "\<forall>l\<in>set ls. good_line l \<Longrightarrow> nl_ok b (join_with [LF] ls)"
proof (induction "[LF]" ls arbitrary: b rule: join_with.induct)
  case 1
  show ?case by simp
next
  case (2 l)
  then show ?case by (simp add: good_line_def nl_ok_no_LF)
next
  case (3 l l' ls)
  from 3(2) have l: "nl_ok b l" "nl_state b l = False"
    by (simp_all add: good_line_def nl_ok_no_LF nl_state_last)
  from 3 have "nl_ok True (join_with [LF] (l' # ls))" by simp
  with l show ?case by (simp add: nl_ok_append)
qed

lemma reconstructed_ok: "nl_ok b (join_with [LF] (merge_lines (split_lines cleaned)))"
proof -
  have "\<forall>p\<in>set (merge_loop 0 (split_lines cleaned) []). good_line p"
    by (intro merge_loop_good) (simp_all add: split_lines_good)
  then show ?thesis by (simp add: merge_lines_def join_good)
qed

section \<open>A single hyphen between two words\<close>

























section \<open>The claims\<close>

text \<open>
  C1.  For every batch, \<open>extractTextFromPDFs\<close> returns as many strings as it was given
  buffers, none for the empty batch, and the string in slot \<open>i\<close> is the one the function
  returns for document \<open>i\<close> alone, whatever happens to the other documents.
\<close>

theorem C1_alignment:
  "length (extractTextFromPDFs getText buffers) = length buffers \<and>
   extractTextFromPDFs getText [] = [] \<and>
   (\<forall>i < length buffers.
      extractTextFromPDFs getText buffers ! i = extractTextFromPDFs getText [buffers ! i] ! 0)"
  by (simp add: extract_map)

theorem C1_alignment_witness:
  "length (extractTextFromPDFs sample_getText sample_buffers) = length sample_buffers \<and>
   (1::nat) < length sample_buffers \<and>
   extractTextFromPDFs sample_getText sample_buffers ! 1 =
     extractTextFromPDFs sample_getText [sample_buffers ! 1] ! 0"
  using C1_alignment[of sample_getText sample_buffers] by (simp add: sample_buffers_def)

text \<open>
  C2.  In every batch, a slot whose payload is absent holds the empty string; a slot whose
  document makes the extractor throw holds the empty string; every slot whose document
  the extractor reads holds that document's cleaned text, whatever happened in the other
  slots.  The result has one slot per buffer, and the extractor is invoked on exactly the
  payloads that are present, in order: never on an absent one.
\<close>

theorem C2_failure_isolation:
  assumes "i < length buffers"
  shows "(buffers ! i = None \<longrightarrow> extractTextFromPDFs getText buffers ! i = []) \<and>
         (\<forall>b e. buffers ! i = Some b \<and> getText b = Inl e \<longrightarrow>
            extractTextFromPDFs getText buffers ! i = []) \<and>
         (\<forall>b result. buffers ! i = Some b \<and> getText b = Inr result \<longrightarrow>
            extractTextFromPDFs getText buffers ! i =
              (case plainText result of Inl e \<Rightarrow> [] | Inr t \<Rightarrow> cleanExtractedText (Some t))) \<and>
         length (extractTextFromPDFs getText buffers) = length buffers \<and>
         parsed (run_batch getText buffers) = List.map_filter (\<lambda>b. b) buffers"
  using assms
  by (simp add: extract_map document_text_cases run_batch_def process_buffers_parsed)

theorem C2_failure_isolation_witness:
  "(1::nat) < length sample_buffers \<and>
   sample_buffers ! 1 = Some 1 \<and> sample_getText 1 = Inl ExtractorError \<and>
   extractTextFromPDFs sample_getText sample_buffers ! 1 = [] \<and>
   extractTextFromPDFs sample_getText sample_buffers ! 0 = js ''Hello,world'' \<and>
   parsed (run_batch sample_getText sample_buffers) = [0, 1, 2]"
proof -
  have h: "(1::nat) < length sample_buffers" by (simp add: sample_buffers_def)
  have s: "sample_buffers ! 1 = Some 1" "sample_getText 1 = Inl ExtractorError"
    by (simp_all add: sample_buffers_def sample_getText_def)
  from C2_failure_isolation[OF h, of sample_getText] s
  have "extractTextFromPDFs sample_getText sample_buffers ! 1 = []"
    and "parsed (run_batch sample_getText sample_buffers) = List.map_filter (\<lambda>b. b) sample_buffers"
    by simp_all
  with h s show ?thesis
    by (simp add: sample_texts) (simp add: sample_buffers_def List.map_filter_simps)
qed



text \<open>
  C4.  A line of 35 capital letters and spaces is a caps header: the bound of the pattern
  is 35, not 34.
\<close>

theorem C4_caps_header_35:
  "length (js ''PROFESSIONAL EXPERIENCE AND PROJECT'') = 35 \<and>
   isHeaderCaps (js ''PROFESSIONAL EXPERIENCE AND PROJECT'')"
  by (simp add: eval_defs)

text \<open>
  C4, in the form that holds.  A line is a caps header exactly when all of it consists of
  the letters A to Z, whitespace characters and ampersands and its length is between 2
  and 35 inclusive; an all-caps line of length 36 or more is not a caps header.
\<close>

theorem C4_caps_header:
  "isHeaderCaps currentLine \<longleftrightarrow>
     (\<forall>c\<in>set currentLine. cc_upper c \<or> cc_space c \<or> c = 38) \<and>
     2 \<le> length currentLine \<and> length currentLine \<le> 35"
  by (simp add: isHeaderCaps_iff cc_caps_def)

theorem C4_caps_header_witness:
  "isHeaderCaps (js ''TECHNICAL SKILLS'') \<and> \<not> isHeaderCaps (js ''A'') \<and>
   \<not> isHeaderCaps (js ''PROFESSIONAL EXPERIENCE AND PROJECTS'') \<and>
   \<not> isHeaderCaps (js ''Technical Skills'')"
  by (simp add: C4_caps_header js_def cc_defs)

text \<open>
  C10.  A result object with a string \<open>text\<close> yields that text, whatever its \<open>pages\<close>.
  Without a string \<open>text\<close>, a non-empty \<open>pages\<close> array is flattened: the page texts whose
  trimmed text is empty are dropped and the others joined with a blank line.  Without
  either, the plain text is empty, and a document whose plain text is empty yields the
  empty string.
\<close>

theorem C10_result_shapes:
  "plainText (RObject (VString t) pages) = Inr t \<and>
   (\<not> is_string v \<and> ps \<noteq> [] \<longrightarrow>
      plainText (RObject v (PagesArray ps)) =
        (case page_texts ps of
           Inl e \<Rightarrow> Inl e
         | Inr ts \<Rightarrow> Inr (join_with [LF, LF] (filter (\<lambda>t. length (trim t) > 0) ts)))) \<and>
   (\<not> is_string v \<longrightarrow>
      plainText (RObject v (PagesArray [])) = Inr [] \<and>
      plainText (RObject v PagesOther) = Inr []) \<and>
   page_texts (map VString ts) = Inr ts \<and>
   (plainText result = Inr [] \<and> getText b = Inr result \<longrightarrow>
      extractTextFromPDFs getText [Some b] = [[]])"
proof -
  have "page_texts (map VString ts) = Inr ts" by (induction ts) simp_all
  then show ?thesis
    by (cases v) (simp_all add: extract_map document_text_cases cleanExtractedText_def)
qed

theorem C10_result_shapes_witness:
  "plainText (RObject (VString (js ''flat'')) (PagesArray [VString (js ''page'')])) =
     Inr (js ''flat'') \<and>
   \<not> is_string VFalsy \<and>
   plainText (RObject VFalsy
     (PagesArray [VString (js ''page one''), VString (js ''  ''), VFalsy,
                  VString (js ''page two'')])) =
     Inr (js ''page one'' @ [LF, LF] @ js ''page two'') \<and>
   plainText (RObject VTruthy PagesOther) = Inr []"
proof -
  let ?ps = "[VString (js ''page one''), VString (js ''  ''), VFalsy, VString (js ''page two'')]"
  from C10_result_shapes[of "js ''flat''" "PagesArray [VString (js ''page'')]" VFalsy ?ps]
  have "plainText (RObject (VString (js ''flat'')) (PagesArray [VString (js ''page'')])) =
          Inr (js ''flat'')"
    and "plainText (RObject VFalsy (PagesArray ?ps)) =
          (case page_texts ?ps of
             Inl e \<Rightarrow> Inl e
           | Inr ts \<Rightarrow> Inr (join_with [LF, LF] (filter (\<lambda>t. length (trim t) > 0) ts)))"
    by simp_all
  then show ?thesis by (simp add: js_def trim_def cc_defs)
qed

text \<open>
  C5.  In the loop over lines that are not empty, the state after line \<open>k\<close> comes from the
  state before it by this rule: the line is appended, after one space, to the last
  logical line exactly when it is not a new section, a logical line exists, the line is
  not a bullet item and the last logical line does not end in a colon; otherwise it
  becomes a new logical line.  So a logical line that ends in a colon never absorbs the
  next line.
\<close>

theorem C5_merge_rule:
  assumes "\<forall>l\<in>set lines. l \<noteq> []" and "k < length lines"
  shows "merge_loop 0 (take (Suc k) lines) [] =
     (let processedLines = merge_loop 0 (take k lines) []; L = lines ! k in
      if \<not> isNewSection k L \<and> processedLines \<noteq> [] \<and> \<not> isBulletPoint L \<and>
         \<not> endsWith (last processedLines) 58
      then butlast processedLines @ [last processedLines @ [SP] @ L]
      else processedLines @ [L])"
proof -
  from assms(1) have "\<forall>l\<in>set (take k lines). l \<noteq> []" by (auto dest: in_set_takeD)
  then have "\<forall>p\<in>set (merge_loop 0 (take k lines) []). p \<noteq> []"
    by (intro merge_loop_nonempty) simp_all
  with assms(2) show ?thesis
    by (simp add: take_Suc_conv_app_nth merge_loop_snoc merge_step_rule Let_def min_def)
qed

theorem C5_merge_rule_witness:
  "(3::nat) < length sample_lines \<and> (4::nat) < length sample_lines \<and>
   merge_loop 0 (take (Suc 3) sample_lines) [] =
     [js ''Jane Roe'', js ''Engineer'', js ''Languages:'', js ''Python, Rust''] \<and>
   merge_loop 0 (take (Suc 4) sample_lines) [] =
     [js ''Jane Roe'', js ''Engineer'', js ''Languages:'', js ''Python, Rust and Go'']"
proof -
  have ne: "\<forall>l\<in>set sample_lines. l \<noteq> []" by (simp add: sample_lines_def js_def)
  have k: "(3::nat) < length sample_lines" "(4::nat) < length sample_lines"
    by (simp_all add: sample_lines_def)
  have a: "merge_loop 0 (take (Suc 3) sample_lines) [] =
     [js ''Jane Roe'', js ''Engineer'', js ''Languages:'', js ''Python, Rust'']"
    unfolding C5_merge_rule[OF ne k(1)] sample_lines3 sample_lines_nth Let_def
    by (simp add: endsWith_def js_def)
  have "Suc 3 = 4" by simp
  with a have a4: "merge_loop 0 (take 4 sample_lines) [] =
     [js ''Jane Roe'', js ''Engineer'', js ''Languages:'', js ''Python, Rust'']"
    by simp
  have b: "merge_loop 0 (take (Suc 4) sample_lines) [] =
     [js ''Jane Roe'', js ''Engineer'', js ''Languages:'', js ''Python, Rust and Go'']"
    unfolding C5_merge_rule[OF ne k(2)] a4 sample_lines_nth Let_def
    by (simp add: sample_lines_new endsWith_def) (simp add: js_def SP_def)
  from k a b show ?thesis by simp
qed




text \<open>
  C8.  On the lines John Doe, Senior Engineer, Built systems, that scale. the loop gives
  two logical lines, not three: the third line is body text and the second line does not
  end in a colon, so the third and fourth lines are appended to the second.
\<close>

theorem C8_example_merges:
  "merge_lines [js ''John Doe'', js ''Senior Engineer'', js ''Built systems'', js ''that scale.''] =
     [js ''John Doe'', js ''Senior Engineer Built systems that scale.''] \<and>
   merge_lines [js ''John Doe'', js ''Senior Engineer'', js ''Built systems'', js ''that scale.''] \<noteq>
     [js ''John Doe'', js ''Senior Engineer'', js ''Built systems that scale.'']"
  by (simp add: eval_defs)

text \<open>
  C8, in the form that holds.  The first two lines are always new sections and each starts
  a logical line of its own: the first logical line is the first line, and the second logical line
  begins with the second line, which later body lines may extend.  On the lines of the
  example the logical lines are John Doe and Senior Engineer Built systems that scale.
\<close>

theorem C8_first_lines:
  "isNewSection 0 L \<and> isNewSection 1 L \<and>
   merge_step 0 L processedLines = processedLines @ [L] \<and>
   merge_step 1 L processedLines = processedLines @ [L] \<and>
   merge_lines [l0] = [l0] \<and>
   (\<exists>q qs. merge_lines (l0 # l1 # rest) = l0 # (l1 @ q) # qs) \<and>
   merge_lines [js ''John Doe'', js ''Senior Engineer'', js ''Built systems'', js ''that scale.''] =
     [js ''John Doe'', js ''Senior Engineer Built systems that scale.'']"
proof -
  have "merge_lines (l0 # l1 # rest) = merge_loop 2 rest ([l0] @ [l1])"
    by (simp add: merge_lines_def new_section_appends first_lines_new numeral_2_eq_2)
  with merge_loop_grows[of 2 rest "[l0]" l1]
  have "\<exists>q qs. merge_lines (l0 # l1 # rest) = l0 # (l1 @ q) # qs" by simp
  moreover have "merge_lines [l0] = [l0]"
    by (simp add: merge_lines_def new_section_appends first_lines_new)
  moreover have "merge_lines [js ''John Doe'', js ''Senior Engineer'', js ''Built systems'', js ''that scale.''] =
     [js ''John Doe'', js ''Senior Engineer Built systems that scale.'']"
    by (simp add: eval_defs)
  ultimately show ?thesis
    by (simp add: new_section_appends first_lines_new)
qed

theorem C8_first_lines_witness:
  "isNewSection 1 (js ''built systems'') \<and>
   merge_step 1 (js ''built systems'') [js ''john doe''] = [js ''john doe'', js ''built systems'']"
  using C8_first_lines[of "js ''built systems''" "[js ''john doe'']"] by simp

text \<open>
  C9.  The text returned by \<open>cleanExtractedText\<close> never contains two consecutive newlines.
  The lines that enter the loop are not empty and contain no newline, and on the text
  that reaches line 109 the replacement of three or more newlines changes nothing.
\<close>

theorem C9_no_blank_line:
  "\<not> (\<exists>u v. cleanExtractedText text = u @ [LF, LF] @ v) \<and>
   (\<forall>l\<in>set (split_lines cleaned). l \<noteq> [] \<and> LF \<notin> set l) \<and>
   replace_all rx_newlines to_two_newlines
       (fixSpacing (join_with [LF] (merge_lines (split_lines cleaned)))) =
     fixSpacing (join_with [LF] (merge_lines (split_lines cleaned)))"
proof -
  have "nl_ok False (cleanExtractedText text)"
    by (auto simp: cleanExtractedText_def split: option.splits
        intro: nl_ok_postProcess reconstructed_ok)
  then have "\<not> (\<exists>u v. cleanExtractedText text = u @ [LF, LF] @ v)"
    using nl_ok_double by metis
  moreover have "\<forall>l\<in>set (split_lines cleaned). l \<noteq> [] \<and> LF \<notin> set l"
    using split_lines_good by (auto simp: good_line_def)
  moreover have "replace_all rx_newlines to_two_newlines
       (fixSpacing (join_with [LF] (merge_lines (split_lines cleaned)))) =
     fixSpacing (join_with [LF] (merge_lines (split_lines cleaned)))"
    by (intro newlines_identity nl_ok_fixSpacing reconstructed_ok)
  ultimately show ?thesis by blast
qed

theorem C9_no_blank_line_witness:
  "cleanExtractedText (Some (js ''Skills'' @ [LF, LF, LF] @ js ''  Python  '' @ [CR, LF, LF] @
       js ''Rust .'')) = js ''Skills'' @ [LF] @ js ''Python Rust.'' \<and>
   \<not> (\<exists>u v. cleanExtractedText (Some (js ''Skills'' @ [LF, LF, LF] @ js ''  Python  '' @
       [CR, LF, LF] @ js ''Rust .'')) = u @ [LF, LF] @ v)"
proof -
  let ?t = "Some (js ''Skills'' @ [LF, LF, LF] @ js ''  Python  '' @ [CR, LF, LF] @ js ''Rust .'')"
  have "cleanExtractedText ?t = js ''Skills'' @ [LF] @ js ''Python Rust.''"
    by (simp add: eval_defs)
  moreover from C9_no_blank_line[of ?t]
  have "\<not> (\<exists>u v. cleanExtractedText ?t = u @ [LF, LF] @ v)" by blast
  ultimately show ?thesis by blast
qed




end
